theory Spec2Isabelle
  imports Main
begin

section \<open>Graph model\<close>

text \<open>
  The node and edge items of the automaton, as the data-model comment of the source
  lists them. Only the members the engine reads are kept: the coordinates of a node and
  the curve of an edge are never read. The \<open>final\<close> member of a node is optional; the
  engine tests it for truthiness, so an absent member and \<open>false\<close> behave alike.
\<close>

record node =
  node_id :: string
  node_label :: string
  node_final :: "bool option"

record edge =
  edge_id :: string
  edge_from :: string
  edge_to :: string
  edge_label :: string

text \<open>
  The members \<open>nodes\<close> and \<open>edges\<close> of an object: each is absent, present but not an
  instance of \<open>DataSet\<close>, or a \<open>DataSet\<close> holding items.
\<close>

datatype 'a member = NoMember | NotDataSet | DataSet "'a list"

record automataData =
  nodes :: "node member"
  edges :: "edge member"

text \<open>
  The argument \<open>data\<close> of \<open>computeDFA\<close> is checked as a value of type \<open>any\<close>: it is
  an object, seen through its two members, or it is not an object (\<open>null\<close>,
  \<open>undefined\<close>, a number, a string, a boolean).
\<close>

datatype js_value = NonObject | Object automataData

text \<open>\<open>data.nodes\<close> and \<open>data.edges\<close>; they are read only after the shape check.\<close>

fun data_nodes :: "js_value \<Rightarrow> node member" where
  "data_nodes (Object d) = nodes d"
| "data_nodes NonObject = NoMember"

fun data_edges :: "js_value \<Rightarrow> edge member" where
  "data_edges (Object d) = edges d"
| "data_edges NonObject = NoMember"

record dfaResponse =
  valid :: bool
  accepted :: "bool option"
  acceptedNodeLabel :: "string option"

text \<open>
  Three exceptions can leave \<open>computeDFA\<close>: the \<open>TypeError\<close> it throws itself
  ("function only accepts Dataset"); the \<open>TypeError\<close> the runtime throws when the
  \<open>in\<close> operator of \<open>isAutomataData\<close> is applied to a value that is not an object; and
  the \<open>TypeError\<close> the runtime throws when \<open>preProcess\<close> reads \<open>label\<close> of
  \<open>edges[edgeIndex]\<close> past the end of the array.
\<close>

datatype error = TypeError_OnlyDataset | TypeError_In | TypeError_Undefined

section \<open>The shape check\<close>

fun has_member :: "'a member \<Rightarrow> bool" where
  "has_member NoMember = False"
| "has_member NotDataSet = True"
| "has_member (DataSet items) = True"

fun instanceof_DataSet :: "'a member \<Rightarrow> bool" where
  "instanceof_DataSet (DataSet items) = True"
| "instanceof_DataSet NoMember = False"
| "instanceof_DataSet NotDataSet = False"

text \<open>
  \<open>isAutomataData\<close> takes any value. \<open>"nodes" in data\<close> throws when \<open>data\<close> is not an
  object; on an object the function returns a boolean.
\<close>

fun isAutomataData :: "js_value \<Rightarrow> error + bool" where
  "isAutomataData NonObject = Inl TypeError_In"
| "isAutomataData (Object d) =
     Inr (if has_member (nodes d) \<and> has_member (edges d) then
            (if instanceof_DataSet (nodes d) \<and> instanceof_DataSet (edges d) then True
             else False)
          else False)"

text \<open>
  Modelled from the spec: \<open>DataSet.get()\<close> belongs to the vis-data library, which is not
  among the sources; it returns the items of the \<open>DataSet\<close> as an array. It is only
  called after the shape check, so its value on the other members is never used.
\<close>

fun get :: "'a member \<Rightarrow> 'a list" where
  "get (DataSet items) = items"
| "get NoMember = []"
| "get NotDataSet = []"

section \<open>Strings\<close>

text \<open>
  A string is the list of its code units, each a \<open>char\<close>: \<open>length\<close>, \<open>charAt\<close> and
  indexing count them as the source does.

  \<open>label.split(",")\<close>: the pieces between the commas; never an empty array, and the
  empty string gives one empty piece.
\<close>

fun split_comma :: "string \<Rightarrow> string list" where
  "split_comma [] = [[]]"
| "split_comma (c # cs) =
     (if c = CHR '','' then [] # split_comma cs
      else (c # hd (split_comma cs)) # tl (split_comma cs))"

text \<open>
  \<open>trim()\<close> removes white space and line terminators at both ends. These are the ones a
  \<open>char\<close> can hold: tab, line feed, vertical tab, form feed, carriage return, space and
  the no-break space.
\<close>

definition is_ws :: "char \<Rightarrow> bool" where
  "is_ws c = (c = CHR 0x09 \<or> c = CHR 0x0A \<or> c = CHR 0x0B \<or> c = CHR 0x0C \<or> c = CHR 0x0D
     \<or> c = CHR '' '' \<or> c = CHR 0xA0)"

definition trim :: "string \<Rightarrow> string" where
  "trim s = rev (dropWhile is_ws (rev (dropWhile is_ws s)))"

section \<open>Normalization: preProcess\<close>

text \<open>
  \<open>preProcess\<close> mutates the two arrays it is given and draws identifiers from
  \<open>randomUUID()\<close>. The state passed along holds the contents of both arrays and the
  number of \<open>randomUUID()\<close> calls made so far; \<open>uuid k\<close> is the value the \<open>k\<close>-th
  call returns.
\<close>

record arrays =
  st_nodes :: "node list"
  st_edges :: "edge list"
  st_calls :: nat

text \<open>
  The innermost loop (over the characters of one trimmed sub-label). The list argument
  is the part of \<open>edgeLabel\<close> from \<open>edgeLabelIndex\<close> on, so
  \<open>edgeLabelIndex + 1 === edgeLabel.length\<close> is the test that nothing follows.
\<close>

fun charLoop :: "(nat \<Rightarrow> string) \<Rightarrow> string \<Rightarrow> string \<Rightarrow> string \<Rightarrow> arrays \<Rightarrow> arrays" where
  "charLoop uuid edgeTo previousTo [] st = st"
| "charLoop uuid edgeTo previousTo (c # rest) st =
     (let newId = uuid (st_calls st) in
      if rest = [] then
        charLoop uuid edgeTo previousTo rest
          (st\<lparr>st_edges := st_edges st @
                 [\<lparr>edge_id = newId, edge_from = previousTo, edge_to = edgeTo, edge_label = [c]\<rparr>],
              st_calls := st_calls st + 1\<rparr>)
      else
        (let newTo = uuid (st_calls st + 1) in
         charLoop uuid edgeTo newTo rest
           (st\<lparr>st_edges := st_edges st @
                  [\<lparr>edge_id = newId, edge_from = previousTo, edge_to = newTo, edge_label = [c]\<rparr>],
               st_calls := st_calls st + 2\<rparr>)))"

text \<open>The middle loop (over the sub-labels): each one is trimmed and starts at \<open>edge.from\<close>.\<close>

fun labelArrayLoop :: "(nat \<Rightarrow> string) \<Rightarrow> edge \<Rightarrow> string list \<Rightarrow> arrays \<Rightarrow> arrays" where
  "labelArrayLoop uuid e [] st = st"
| "labelArrayLoop uuid e (sub # subs) st =
     labelArrayLoop uuid e subs (charLoop uuid (edge_to e) (edge_from e) (trim sub) st)"

text \<open>\<open>edges.splice(edgeIndex, 1)\<close>.\<close>

definition splice_at :: "nat \<Rightarrow> 'a list \<Rightarrow> 'a list" where
  "splice_at i xs = take i xs @ drop (Suc i) xs"

text \<open>The test of line 89.\<close>

definition needsExpansion :: "edge \<Rightarrow> bool" where
  "needsExpansion e =
     (let edgeLabelArray = split_comma (edge_label e)
      in length edgeLabelArray > 1 \<or> length (edgeLabelArray ! 0) > 1)"

text \<open>The branch of lines 93 to 127: push the chains, then splice the edge out.\<close>

definition expandEdge :: "(nat \<Rightarrow> string) \<Rightarrow> nat \<Rightarrow> arrays \<Rightarrow> arrays" where
  "expandEdge uuid edgeIndex st =
     (let e = st_edges st ! edgeIndex;
          st' = labelArrayLoop uuid e (split_comma (edge_label e)) st
      in st'\<lparr>st_edges := splice_at edgeIndex (st_edges st')\<rparr>)"

text \<open>
  The outer loop. Its bound \<open>edgesLength\<close> is read once, before the array changes.
  Reading \<open>edges[edgeIndex]\<close> past the end gives \<open>undefined\<close>, and \<open>edge.label\<close> then
  throws: the loop returns the arrays as they are at that moment, with the exception.
\<close>

function preProcess_loop ::
  "(nat \<Rightarrow> string) \<Rightarrow> nat \<Rightarrow> nat \<Rightarrow> arrays \<Rightarrow> arrays \<times> error option" where
  "preProcess_loop uuid edgesLength edgeIndex st =
     (if edgeIndex < edgesLength then
        (if edgeIndex < length (st_edges st) then
           (if needsExpansion (st_edges st ! edgeIndex) then
              preProcess_loop uuid edgesLength edgeIndex (expandEdge uuid edgeIndex st)
            else preProcess_loop uuid edgesLength (edgeIndex + 1) st)
         else (st, Some TypeError_Undefined))
      else (st, None))"
  by pat_completeness auto

lemma split_comma_not_Nil: "split_comma l \<noteq> []"
  by (induction l) auto

lemma split_comma_no_comma: "s \<in> set (split_comma l) \<Longrightarrow> CHR '','' \<notin> set s"
proof (induction l arbitrary: s)
  case Nil
  then show ?case by simp
next
  case (Cons c cs)
  obtain p ps where ps: "split_comma cs = p # ps"
    using split_comma_not_Nil [of cs] by (cases "split_comma cs") auto
  have "CHR '','' \<notin> set p" and "\<And>q. q \<in> set ps \<Longrightarrow> CHR '','' \<notin> set q"
    using Cons.IH ps by auto
  with Cons.prems ps show ?case
    by (auto split: if_splits)
qed

lemma set_trim_subset: "set (trim s) \<subseteq> set s"
proof -
  have "set (trim s) \<subseteq> set (dropWhile is_ws s)"
    unfolding trim_def using set_dropWhileD [of _ is_ws "rev (dropWhile is_ws s)"] by auto
  also have "\<dots> \<subseteq> set s"
    using set_dropWhileD [of _ is_ws s] by auto
  finally show ?thesis .
qed

text \<open>A label of one character that is not a comma: what every pushed edge carries.\<close>

definition single_char :: "edge \<Rightarrow> bool" where
  "single_char e = (case edge_label e of [c] \<Rightarrow> c \<noteq> CHR '','' | _ \<Rightarrow> False)"

lemma single_char_not_needs: "single_char e \<Longrightarrow> \<not> needsExpansion e"
  by (auto simp: single_char_def needsExpansion_def split: list.splits)

lemma charLoop_edges:
  "CHR '','' \<notin> set cs \<Longrightarrow>
   \<exists>new. st_edges (charLoop uuid t p cs st) = st_edges st @ new \<and> length new = length cs
      \<and> list_all single_char new"
proof (induction cs arbitrary: p st)
  case Nil
  then show ?case by simp
next
  case (Cons c cs)
  let ?e1 = "\<lparr>edge_id = uuid (st_calls st), edge_from = p, edge_to = t, edge_label = [c]\<rparr>"
  let ?u = "uuid (st_calls st + 1)"
  let ?e2 = "\<lparr>edge_id = uuid (st_calls st), edge_from = p, edge_to = ?u, edge_label = [c]\<rparr>"
  show ?case
  proof (cases "cs = []")
    case True
    have "single_char ?e1" using Cons.prems by (auto simp: single_char_def)
    with True show ?thesis by simp
  next
    case False
    from Cons.prems have nc: "CHR '','' \<notin> set cs" by simp
    let ?st = "st\<lparr>st_edges := st_edges st @ [?e2], st_calls := st_calls st + 2\<rparr>"
    from Cons.IH [OF nc, of ?u ?st] obtain new where
      new: "st_edges (charLoop uuid t ?u cs ?st) = st_edges ?st @ new"
        "length new = length cs" "list_all single_char new"
      by blast
    have "single_char ?e2" using Cons.prems by (auto simp: single_char_def)
    with new False show ?thesis
      by (intro exI [of _ "?e2 # new"]) (simp add: Let_def)
  qed
qed

lemma labelArrayLoop_edges:
  "\<forall>s \<in> set subs. CHR '','' \<notin> set s \<Longrightarrow>
   \<exists>new. st_edges (labelArrayLoop uuid e subs st) = st_edges st @ new
      \<and> length new = sum_list (map (\<lambda>s. length (trim s)) subs)
      \<and> list_all single_char new"
proof (induction subs arbitrary: st)
  case Nil
  then show ?case by simp
next
  case (Cons s subs)
  have "CHR '','' \<notin> set (trim s)"
    using Cons.prems set_trim_subset [of s] by auto
  from charLoop_edges [OF this, of uuid "edge_to e" "edge_from e" st] obtain n1 where
    n1: "st_edges (charLoop uuid (edge_to e) (edge_from e) (trim s) st) = st_edges st @ n1"
      "length n1 = length (trim s)" "list_all single_char n1"
    by blast
  from Cons.prems have "\<forall>s \<in> set subs. CHR '','' \<notin> set s" by simp
  from Cons.IH [OF this, of "charLoop uuid (edge_to e) (edge_from e) (trim s) st"] obtain n2 where
    n2: "st_edges (labelArrayLoop uuid e subs (charLoop uuid (edge_to e) (edge_from e) (trim s) st))
           = st_edges (charLoop uuid (edge_to e) (edge_from e) (trim s) st) @ n2"
      "length n2 = sum_list (map (\<lambda>s. length (trim s)) subs)" "list_all single_char n2"
    by blast
  from n1 n2 show ?case
    by (intro exI [of _ "n1 @ n2"]) simp
qed

lemma expandEdge_edges:
  assumes "i < length (st_edges st)"
  shows "\<exists>new. st_edges (expandEdge uuid i st) = take i (st_edges st) @ drop (Suc i) (st_edges st) @ new
      \<and> length new = sum_list (map (\<lambda>s. length (trim s)) (split_comma (edge_label (st_edges st ! i))))
      \<and> list_all single_char new"
proof -
  let ?e = "st_edges st ! i"
  have "\<forall>s \<in> set (split_comma (edge_label ?e)). CHR '','' \<notin> set s"
    using split_comma_no_comma by blast
  from labelArrayLoop_edges [OF this, of uuid ?e st] obtain new where
    new: "st_edges (labelArrayLoop uuid ?e (split_comma (edge_label ?e)) st) = st_edges st @ new"
      "length new = sum_list (map (\<lambda>s. length (trim s)) (split_comma (edge_label ?e)))"
      "list_all single_char new"
    by blast
  with assms show ?thesis
    by (intro exI [of _ new]) (simp add: expandEdge_def Let_def splice_at_def)
qed

lemma filter_needs_single: "list_all single_char new \<Longrightarrow> filter needsExpansion new = []"
  by (induction new) (auto simp: single_char_not_needs)

lemma expandEdge_fewer:
  assumes i: "i < length (st_edges st)" and n: "needsExpansion (st_edges st ! i)"
  shows "length (filter needsExpansion (st_edges (expandEdge uuid i st)))
           < length (filter needsExpansion (st_edges st))"
proof -
  from expandEdge_edges [OF i, of uuid] obtain new where
    new: "st_edges (expandEdge uuid i st) = take i (st_edges st) @ drop (Suc i) (st_edges st) @ new"
      "list_all single_char new"
    by blast
  have "st_edges st = take i (st_edges st) @ st_edges st ! i # drop (Suc i) (st_edges st)"
    using i by (rule id_take_nth_drop)
  then have "length (filter needsExpansion (st_edges st))
      = length (filter needsExpansion (take i (st_edges st)))
        + Suc (length (filter needsExpansion (drop (Suc i) (st_edges st))))"
    using n by (metis filter.simps(2) filter_append length_Cons length_append)
  with new show ?thesis
    by (simp add: filter_needs_single)
qed

termination preProcess_loop
proof (relation "measures [\<lambda>(uuid, n, i, st). length (filter needsExpansion (st_edges st)),
                           \<lambda>(uuid, n, i, st). n - i]")
  show "wf (measures [\<lambda>(uuid :: nat \<Rightarrow> string, n :: nat, i :: nat, st :: arrays).
                         length (filter needsExpansion (st_edges st)),
                      \<lambda>(uuid, n, i, st). n - i])"
    by simp
next
  fix uuid :: "nat \<Rightarrow> string" and edgesLength edgeIndex :: nat and st :: arrays
  assume "edgeIndex < length (st_edges st)" "needsExpansion (st_edges st ! edgeIndex)"
  then show "((uuid, edgesLength, edgeIndex, expandEdge uuid edgeIndex st),
              (uuid, edgesLength, edgeIndex, st))
        \<in> measures [\<lambda>(uuid, n, i, st). length (filter needsExpansion (st_edges st)),
                     \<lambda>(uuid, n, i, st). n - i]"
    using expandEdge_fewer [of edgeIndex st uuid] by simp
next
  fix uuid :: "nat \<Rightarrow> string" and edgesLength edgeIndex :: nat and st :: arrays
  assume "edgeIndex < edgesLength"
  then show "((uuid, edgesLength, edgeIndex + 1, st), (uuid, edgesLength, edgeIndex, st))
        \<in> measures [\<lambda>(uuid, n, i, st). length (filter needsExpansion (st_edges st)),
                     \<lambda>(uuid, n, i, st). n - i]"
    by simp
qed

declare preProcess_loop.simps [simp del]

lemma preProcess_loop_done:
  "\<not> i < n \<Longrightarrow> preProcess_loop uuid n i st = (st, None)"
  by (subst preProcess_loop.simps) simp

lemma preProcess_loop_past_end:
  "i < n \<Longrightarrow> \<not> i < length (st_edges st) \<Longrightarrow>
   preProcess_loop uuid n i st = (st, Some TypeError_Undefined)"
  by (subst preProcess_loop.simps) simp

lemma preProcess_loop_expand:
  "i < n \<Longrightarrow> i < length (st_edges st) \<Longrightarrow> needsExpansion (st_edges st ! i) \<Longrightarrow>
   preProcess_loop uuid n i st = preProcess_loop uuid n i (expandEdge uuid i st)"
  by (subst preProcess_loop.simps) simp

lemma preProcess_loop_advance:
  "i < n \<Longrightarrow> i < length (st_edges st) \<Longrightarrow> \<not> needsExpansion (st_edges st ! i) \<Longrightarrow>
   preProcess_loop uuid n i st = preProcess_loop uuid n (i + 1) st"
  by (subst preProcess_loop.simps) simp

definition preProcess :: "(nat \<Rightarrow> string) \<Rightarrow> node list \<Rightarrow> edge list \<Rightarrow> arrays \<times> error option" where
  "preProcess uuid ns es =
     preProcess_loop uuid (length es) 0 \<lparr>st_nodes = ns, st_edges = es, st_calls = 0\<rparr>"

section \<open>The determinism validator\<close>

text \<open>The inner loop of \<open>isUniqueEdges\<close>: does a later edge share \<open>from\<close> and \<open>label\<close>?\<close>

fun searchLoop :: "edge \<Rightarrow> edge list \<Rightarrow> bool" where
  "searchLoop e [] = False"
| "searchLoop e (searchEdge # rest) =
     (if edge_from e = edge_from searchEdge \<and> edge_label e = edge_label searchEdge then True
      else searchLoop e rest)"

fun isUniqueEdges :: "edge list \<Rightarrow> bool" where
  "isUniqueEdges [] = True"
| "isUniqueEdges (e # rest) = (if searchLoop e rest then False else isUniqueEdges rest)"

definition isValidDFA :: "node list \<Rightarrow> edge list \<Rightarrow> bool" where
  "isValidDFA ns es = isUniqueEdges es"

section \<open>The result builder\<close>

definition generateResponse :: "bool \<Rightarrow> bool option \<Rightarrow> string option \<Rightarrow> dfaResponse" where
  "generateResponse v a l =
     (if a = None \<and> l = None then \<lparr>valid = v, accepted = None, acceptedNodeLabel = None\<rparr>
      else if l = None then \<lparr>valid = v, accepted = a, acceptedNodeLabel = None\<rparr>
      else \<lparr>valid = v, accepted = a, acceptedNodeLabel = l\<rparr>)"

section \<open>Traversal: computeDFA\<close>

text \<open>The search for an edge leaving \<open>currentNode\<close> under \<open>inputChar\<close>; it breaks at the first.\<close>

fun edgeLoop :: "edge list \<Rightarrow> string \<Rightarrow> char \<Rightarrow> string option" where
  "edgeLoop [] currentNode inputChar = None"
| "edgeLoop (e # rest) currentNode inputChar =
     (if edge_from e = currentNode \<and> edge_label e = [inputChar] then Some (edge_to e)
      else edgeLoop rest currentNode inputChar)"

text \<open>The loop over the input; \<open>None\<close> is the early return of line 266.\<close>

fun inputLoop :: "edge list \<Rightarrow> string \<Rightarrow> string \<Rightarrow> string option" where
  "inputLoop es currentNode [] = Some currentNode"
| "inputLoop es currentNode (inputChar # rest) =
     (case edgeLoop es currentNode inputChar of
        None \<Rightarrow> None
      | Some next_node \<Rightarrow> inputLoop es next_node rest)"

text \<open>The last loop: the label of the first node with the ending id and a truthy \<open>final\<close>.\<close>

fun nodeLoop :: "node list \<Rightarrow> string \<Rightarrow> string option" where
  "nodeLoop [] currentNode = None"
| "nodeLoop (n # rest) currentNode =
     (if node_id n = currentNode \<and> node_final n = Some True then Some (node_label n)
      else nodeLoop rest currentNode)"

definition computeDFA :: "(nat \<Rightarrow> string) \<Rightarrow> string \<Rightarrow> js_value \<Rightarrow> error + dfaResponse" where
  "computeDFA uuid inputString data =
     (case isAutomataData data of
        Inl err \<Rightarrow> Inl err
      | Inr shape_ok \<Rightarrow>
          if shape_ok then
            (case preProcess uuid (get (data_nodes data)) (get (data_edges data)) of
               (st, Some err) \<Rightarrow> Inl err
             | (st, None) \<Rightarrow>
                 (let isValid = isValidDFA (st_nodes st) (st_edges st) in
                  if \<not> isValid then Inr (generateResponse isValid None None)
                  else
                    (case inputLoop (st_edges st) ''1'' inputString of
                       None \<Rightarrow> Inr (generateResponse isValid (Some False) None)
                     | Some currentNode \<Rightarrow>
                         (case nodeLoop (st_nodes st) currentNode of
                            Some l \<Rightarrow> Inr (generateResponse isValid (Some True) (Some l))
                          | None \<Rightarrow> Inr (generateResponse isValid (Some False) None)))))
          else Inl TypeError_OnlyDataset)"

section \<open>The caller's collections and the working arrays, in one store\<close>

text \<open>
  To say what \<open>computeDFA\<close> leaves untouched, the objects it handles are put in a store:
  the two \<open>DataSet\<close> objects of the caller, the arrays \<open>DataSet.get()\<close> returns, and any
  other object. An address is a position in the store; a new object goes at the end.
\<close>

datatype obj =
  NodeSet "node list" | EdgeSet "edge list" | NodeArray "node list" | EdgeArray "edge list" | Plain

type_synonym store = "obj list"

text \<open>The object \<open>data\<close>: each member is absent or refers to an object of the store.\<close>

record automataRef =
  nodes_ref :: "nat option"
  edges_ref :: "nat option"

definition at :: "store \<Rightarrow> nat \<Rightarrow> obj" where
  "at h a = (if a < length h then h ! a else Plain)"

definition nodes_member :: "store \<Rightarrow> nat option \<Rightarrow> node member" where
  "nodes_member h r =
     (case r of None \<Rightarrow> NoMember
      | Some a \<Rightarrow> (case at h a of NodeSet items \<Rightarrow> DataSet items | _ \<Rightarrow> NotDataSet))"

definition edges_member :: "store \<Rightarrow> nat option \<Rightarrow> edge member" where
  "edges_member h r =
     (case r of None \<Rightarrow> NoMember
      | Some a \<Rightarrow> (case at h a of EdgeSet items \<Rightarrow> DataSet items | _ \<Rightarrow> NotDataSet))"

text \<open>What the caller sees of its graph in a store.\<close>

definition view :: "store \<Rightarrow> automataRef \<Rightarrow> js_value" where
  "view h data =
     Object \<lparr>nodes = nodes_member h (nodes_ref data), edges = edges_member h (edges_ref data)\<rparr>"

text \<open>
  Modelled from the spec: \<open>DataSet.get()\<close> belongs to the vis-data library, which is not
  among the sources. The specification calls its result a snapshot taken at call time:
  a new array holding the items, not a reference into the \<open>DataSet\<close>.
\<close>

definition get_nodes :: "store \<Rightarrow> nat \<Rightarrow> nat \<times> store" where
  "get_nodes h a = (length h, h @ [NodeArray (get (nodes_member h (Some a)))])"

definition get_edges :: "store \<Rightarrow> nat \<Rightarrow> nat \<times> store" where
  "get_edges h a = (length h, h @ [EdgeArray (get (edges_member h (Some a)))])"

definition node_array :: "store \<Rightarrow> nat \<Rightarrow> node list" where
  "node_array h a = (case at h a of NodeArray xs \<Rightarrow> xs | _ \<Rightarrow> [])"

definition edge_array :: "store \<Rightarrow> nat \<Rightarrow> edge list" where
  "edge_array h a = (case at h a of EdgeArray xs \<Rightarrow> xs | _ \<Rightarrow> [])"

text \<open>
  \<open>preProcess(nodes, edges)\<close> works on the two arrays it is handed: it pushes to and
  splices the array at \<open>edges\<close>, and writes nowhere else.
\<close>

definition preProcess_store ::
  "(nat \<Rightarrow> string) \<Rightarrow> nat \<Rightarrow> nat \<Rightarrow> store \<Rightarrow> store \<times> error option" where
  "preProcess_store uuid nodes_a edges_a h =
     (case preProcess uuid (node_array h nodes_a) (edge_array h edges_a) of
        (st, err) \<Rightarrow>
          (h[nodes_a := NodeArray (st_nodes st), edges_a := EdgeArray (st_edges st)], err))"

text \<open>\<open>computeDFA\<close> again, line by line, on references; it returns the store it leaves.\<close>

definition computeDFA_store ::
  "(nat \<Rightarrow> string) \<Rightarrow> string \<Rightarrow> automataRef \<Rightarrow> store \<Rightarrow> (error + dfaResponse) \<times> store" where
  "computeDFA_store uuid inputString data h =
     (case (nodes_ref data, edges_ref data) of
        (Some nodes_r, Some edges_r) \<Rightarrow>
          (if isAutomataData (view h data) = Inr True then
             (case get_nodes h nodes_r of (nodes_a, h1) \<Rightarrow>
              case get_edges h1 edges_r of (edges_a, h2) \<Rightarrow>
              case preProcess_store uuid nodes_a edges_a h2 of
                (h3, Some err) \<Rightarrow> (Inl err, h3)
              | (h3, None) \<Rightarrow>
                  (let isValid = isValidDFA (node_array h3 nodes_a) (edge_array h3 edges_a) in
                   if \<not> isValid then (Inr (generateResponse isValid None None), h3)
                   else
                     (case inputLoop (edge_array h3 edges_a) ''1'' inputString of
                        None \<Rightarrow> (Inr (generateResponse isValid (Some False) None), h3)
                      | Some currentNode \<Rightarrow>
                          (case nodeLoop (node_array h3 nodes_a) currentNode of
                             Some l \<Rightarrow> (Inr (generateResponse isValid (Some True) (Some l)), h3)
                           | None \<Rightarrow> (Inr (generateResponse isValid (Some False) None), h3)))))
           else (Inl TypeError_OnlyDataset, h))
      | _ \<Rightarrow> (Inl TypeError_OnlyDataset, h))"

section \<open>Notions of the specification\<close>

text \<open>
  These definitions follow the words of the specification, not the code; the theorems
  below compare the code with them.
\<close>

text \<open>
  Consuming the input from left to right along matching transitions: \<open>spec_path es q w q'\<close>
  holds when the characters of \<open>w\<close> lead from \<open>q\<close> to \<open>q'\<close>, each along an edge of \<open>es\<close>
  that leaves the current state under that character.
\<close>

inductive spec_path :: "edge list \<Rightarrow> string \<Rightarrow> string \<Rightarrow> string \<Rightarrow> bool" for es where
  path_done: "spec_path es q [] q"
| path_step: "e \<in> set es \<Longrightarrow> edge_from e = q \<Longrightarrow> edge_label e = [c] \<Longrightarrow>
     spec_path es (edge_to e) w q' \<Longrightarrow> spec_path es q (c # w) q'"





text \<open>
  The labels the specification keeps in scope: no piece between commas is empty after
  trimming.
\<close>

definition nonempty_subs :: "edge \<Rightarrow> bool" where
  "nonempty_subs e = list_all (\<lambda>s. trim s \<noteq> []) (split_comma (edge_label e))"

section \<open>Concrete graphs\<close>

text \<open>
  A fixed sequence of identifiers standing for the values of successive
  \<open>randomUUID()\<close> calls, and the graphs the theorems are instantiated on.
\<close>

definition uuid_seq :: "nat \<Rightarrow> string" where
  "uuid_seq k = replicate (Suc k) CHR ''u''"

definition demo_nodes :: "node list" where
  "demo_nodes = [\<lparr>node_id = ''1'', node_label = ''start'', node_final = None\<rparr>,
                 \<lparr>node_id = ''2'', node_label = ''end'', node_final = Some True\<rparr>]"

definition demo_edges :: "edge list" where
  "demo_edges = [\<lparr>edge_id = ''e1'', edge_from = ''1'', edge_to = ''2'', edge_label = ''ab''\<rparr>]"

definition demo_data :: js_value where
  "demo_data = Object \<lparr>nodes = DataSet demo_nodes, edges = DataSet demo_edges\<rparr>"

definition demo_st :: arrays where
  "demo_st = \<lparr>st_nodes = demo_nodes,
     st_edges = [\<lparr>edge_id = ''u'', edge_from = ''1'', edge_to = ''uu'', edge_label = ''a''\<rparr>,
                 \<lparr>edge_id = ''uuu'', edge_from = ''uu'', edge_to = ''2'', edge_label = ''b''\<rparr>],
     st_calls = 3\<rparr>"

definition dup_edges :: "edge list" where
  "dup_edges = [\<lparr>edge_id = ''e1'', edge_from = ''1'', edge_to = ''1'', edge_label = ''a''\<rparr>,
                \<lparr>edge_id = ''e2'', edge_from = ''1'', edge_to = ''1'', edge_label = ''a''\<rparr>]"

definition dup_data :: js_value where
  "dup_data = Object \<lparr>nodes = DataSet [\<lparr>node_id = ''1'', node_label = ''start'', node_final = Some True\<rparr>],
               edges = DataSet dup_edges\<rparr>"

definition dup_st :: arrays where
  "dup_st = \<lparr>st_nodes = [\<lparr>node_id = ''1'', node_label = ''start'', node_final = Some True\<rparr>],
             st_edges = dup_edges, st_calls = 0\<rparr>"

definition demo_store :: store where
  "demo_store = [NodeSet demo_nodes, EdgeSet demo_edges]"

definition demo_ref :: automataRef where
  "demo_ref = \<lparr>nodes_ref = Some 0, edges_ref = Some 1\<rparr>"

section \<open>Properties of the determinism validator\<close>

lemma searchLoop_iff:
  "searchLoop e es \<longleftrightarrow> (edge_from e, edge_label e) \<in> set (map (\<lambda>x. (edge_from x, edge_label x)) es)"
  by (induction es) auto

lemma isUniqueEdges_distinct:
  "isUniqueEdges es \<longleftrightarrow> distinct (map (\<lambda>x. (edge_from x, edge_label x)) es)"
  by (induction es) (auto simp: searchLoop_iff)

lemma distinct_pairs:
  "distinct xs \<longleftrightarrow> \<not> (\<exists>i j. i < j \<and> j < length xs \<and> xs ! i = xs ! j)"
proof
  assume d: "distinct xs"
  show "\<not> (\<exists>i j. i < j \<and> j < length xs \<and> xs ! i = xs ! j)"
  proof
    assume "\<exists>i j. i < j \<and> j < length xs \<and> xs ! i = xs ! j"
    then obtain i j where "i < j" "j < length xs" "xs ! i = xs ! j" by blast
    with d show False by (simp add: nth_eq_iff_index_eq)
  qed
next
  assume n: "\<not> (\<exists>i j. i < j \<and> j < length xs \<and> xs ! i = xs ! j)"
  show "distinct xs"
    unfolding distinct_conv_nth
  proof (intro allI impI)
    fix i j assume "i < length xs" "j < length xs" "i \<noteq> j"
    with n show "xs ! i \<noteq> xs ! j"
      by (metis linorder_neqE_nat)
  qed
qed

lemma isUniqueEdges_pairs:
  "isUniqueEdges es \<longleftrightarrow>
     \<not> (\<exists>i j. i < j \<and> j < length es \<and> edge_from (es ! i) = edge_from (es ! j)
            \<and> edge_label (es ! i) = edge_label (es ! j))"
proof -
  let ?k = "\<lambda>x. (edge_from x, edge_label x)"
  have "(\<exists>i j. i < j \<and> j < length (map ?k es) \<and> map ?k es ! i = map ?k es ! j)
     \<longleftrightarrow> (\<exists>i j. i < j \<and> j < length es \<and> edge_from (es ! i) = edge_from (es ! j)
            \<and> edge_label (es ! i) = edge_label (es ! j))"
    by (intro ex_cong1) auto
  then show ?thesis
    unfolding isUniqueEdges_distinct distinct_pairs by simp
qed

text \<open>
  C4: the validator returns true exactly when no two positions of the edge array hold
  edges with the same \<open>from\<close> and the same \<open>label\<close>. Nothing else is looked at: changing
  the \<open>to\<close> (a self-loop, an edge into a visited state) or the \<open>id\<close> of any edge, or the
  nodes, leaves the answer as it is, and no edge has to exist for any state or symbol.
\<close>

theorem isValidDFA_iff_no_shared_from_label:
  "(isValidDFA ns es \<longleftrightarrow>
      \<not> (\<exists>i j. i < j \<and> j < length es \<and> edge_from (es ! i) = edge_from (es ! j)
            \<and> edge_label (es ! i) = edge_label (es ! j)))
   \<and> isValidDFA ns' (map (\<lambda>e. e\<lparr>edge_to := t e, edge_id := d e\<rparr>) es) = isValidDFA ns es"
proof
  show "isValidDFA ns es \<longleftrightarrow>
      \<not> (\<exists>i j. i < j \<and> j < length es \<and> edge_from (es ! i) = edge_from (es ! j)
            \<and> edge_label (es ! i) = edge_label (es ! j))"
    unfolding isValidDFA_def by (rule isUniqueEdges_pairs)
  show "isValidDFA ns' (map (\<lambda>e. e\<lparr>edge_to := t e, edge_id := d e\<rparr>) es) = isValidDFA ns es"
    by (simp add: isValidDFA_def isUniqueEdges_distinct comp_def)
qed

theorem isValidDFA_witness:
  "isValidDFA [] [\<lparr>edge_id = ''e1'', edge_from = ''1'', edge_to = ''1'', edge_label = ''a''\<rparr>,
                  \<lparr>edge_id = ''e2'', edge_from = ''1'', edge_to = ''2'', edge_label = ''b''\<rparr>]
   \<and> \<not> isValidDFA [] [\<lparr>edge_id = ''e1'', edge_from = ''1'', edge_to = ''1'', edge_label = ''a''\<rparr>,
                  \<lparr>edge_id = ''e2'', edge_from = ''1'', edge_to = ''1'', edge_label = ''a''\<rparr>]"
  using isValidDFA_iff_no_shared_from_label
    [of "[]" "[\<lparr>edge_id = ''e1'', edge_from = ''1'', edge_to = ''1'', edge_label = ''a''\<rparr>,
                  \<lparr>edge_id = ''e2'', edge_from = ''1'', edge_to = ''2'', edge_label = ''b''\<rparr>]"]
  by (simp add: isValidDFA_def)

section \<open>Properties of normalization used by several claims\<close>

lemma charLoop_nodes: "st_nodes (charLoop uuid t p cs st) = st_nodes st"
  by (induction cs arbitrary: p st) (auto simp: Let_def)

lemma labelArrayLoop_nodes: "st_nodes (labelArrayLoop uuid e subs st) = st_nodes st"
  by (induction subs arbitrary: st) (auto simp: charLoop_nodes)

lemma expandEdge_nodes: "st_nodes (expandEdge uuid i st) = st_nodes st"
  by (simp add: expandEdge_def Let_def labelArrayLoop_nodes)

lemma preProcess_loop_nodes: "st_nodes (fst (preProcess_loop uuid n i st)) = st_nodes st"
proof (induction uuid n i st rule: preProcess_loop.induct)
  case (1 uuid n i st)
  consider "\<not> i < n" | "i < n" "\<not> i < length (st_edges st)"
    | "i < n" "i < length (st_edges st)" "needsExpansion (st_edges st ! i)"
    | "i < n" "i < length (st_edges st)" "\<not> needsExpansion (st_edges st ! i)"
    by blast
  then show ?case
  proof cases
    case 1
    then show ?thesis by (simp add: preProcess_loop_done)
  next
    case 2
    then show ?thesis by (simp add: preProcess_loop_past_end)
  next
    case 3
    with "1.IH"(1) show ?thesis
      by (simp add: preProcess_loop_expand [OF 3] expandEdge_nodes)
  next
    case 4
    with "1.IH"(2) show ?thesis
      by (simp add: preProcess_loop_advance [OF 4])
  qed
qed

lemma preProcess_nodes: "preProcess uuid ns es = (st, r) \<Longrightarrow> st_nodes st = ns"
  using preProcess_loop_nodes [of uuid "length es" 0 "\<lparr>st_nodes = ns, st_edges = es, st_calls = 0\<rparr>"]
  by (simp add: preProcess_def)

section \<open>The scan of preProcess on labels without empty sub-labels\<close>

lemma split_comma_single: "split_comma l = [s] \<Longrightarrow> l = s"
proof (induction l arbitrary: s)
  case Nil
  then show ?case by simp
next
  case (Cons c cs)
  from Cons.prems have nc: "c \<noteq> CHR '',''"
    using split_comma_not_Nil [of cs] by (auto split: if_splits)
  with Cons.prems have s: "s = c # hd (split_comma cs)" and "tl (split_comma cs) = []"
    by auto
  then have "split_comma cs = [hd (split_comma cs)]"
    using split_comma_not_Nil [of cs] by (cases "split_comma cs") auto
  from Cons.IH [OF this] s show ?case by simp
qed

lemma single_char_length: "single_char e \<Longrightarrow> length (edge_label e) = 1"
  by (cases "edge_label e"; cases "tl (edge_label e)") (auto simp: single_char_def)

lemma trim_Nil: "trim [] = []"
  by (simp add: trim_def)

lemma unexpanded_length_1:
  assumes "nonempty_subs e \<or> single_char e" and "\<not> needsExpansion e"
  shows "length (edge_label e) = 1"
proof (cases "single_char e")
  case True
  then show ?thesis by (rule single_char_length)
next
  case False
  with assms(1) have ne: "nonempty_subs e" by simp
  obtain s ss where ss: "split_comma (edge_label e) = s # ss"
    using split_comma_not_Nil [of "edge_label e"] by (cases "split_comma (edge_label e)") auto
  with assms(2) have "ss = []" and le: "length s \<le> 1"
    by (auto simp: needsExpansion_def)
  with ss have "edge_label e = s" by (simp add: split_comma_single)
  moreover from ne ss have "s \<noteq> []"
    by (auto simp: nonempty_subs_def trim_Nil)
  ultimately show ?thesis using le by (cases s) auto
qed

lemma expanded_pushes_one:
  assumes "nonempty_subs e"
  shows "1 \<le> sum_list (map (\<lambda>s. length (trim s)) (split_comma (edge_label e)))"
proof -
  obtain s ss where ss: "split_comma (edge_label e) = s # ss"
    using split_comma_not_Nil [of "edge_label e"] by (cases "split_comma (edge_label e)") auto
  with assms have "trim s \<noteq> []" by (simp add: nonempty_subs_def)
  then have "1 \<le> length (trim s)" by (cases "trim s") auto
  with ss show ?thesis by simp
qed

lemma set_drop_Suc_subset: "set (drop (Suc i) xs) \<subseteq> set (drop i xs)"
  using set_drop_subset [of 1 "drop i xs"] by simp

lemma nth_in_set_drop: "i < length xs \<Longrightarrow> xs ! i \<in> set (drop i xs)"
  using Cons_nth_drop_Suc [of i xs] by (metis list.set_intros(1))

lemma preProcess_loop_scan:
  assumes "i \<le> n" and "n \<le> length (st_edges st)"
    and "\<forall>e \<in> set (take i (st_edges st)). length (edge_label e) = 1"
    and "\<forall>e \<in> set (drop i (st_edges st)). nonempty_subs e \<or> single_char e"
    and "\<forall>e \<in> set (drop n (st_edges st)). single_char e"
  shows "snd (preProcess_loop uuid n i st) = None
     \<and> (\<forall>e \<in> set (st_edges (fst (preProcess_loop uuid n i st))). length (edge_label e) = 1)"
  using assms
proof (induction uuid n i st rule: preProcess_loop.induct)
  case (1 uuid n i st)
  let ?es = "st_edges st"
  show ?case
  proof (cases "i < n")
    case False
    with "1.prems"(1) have "i = n" by simp
    have "\<forall>e \<in> set (drop n ?es). length (edge_label e) = 1"
      using "1.prems"(5) single_char_length by blast
    moreover have "set ?es = set (take n ?es) \<union> set (drop n ?es)"
      by (metis append_take_drop_id set_append)
    ultimately have "\<forall>e \<in> set ?es. length (edge_label e) = 1"
      using "1.prems"(3) \<open>i = n\<close> by blast
    with False show ?thesis by (simp add: preProcess_loop_done)
  next
    case True
    with "1.prems"(2) have il: "i < length ?es" by simp
    then have mem: "?es ! i \<in> set (drop i ?es)"
      by (rule nth_in_set_drop)
    with "1.prems"(4) have ok: "nonempty_subs (?es ! i) \<or> single_char (?es ! i)" by blast
    have sub: "set (drop (Suc i) ?es) \<subseteq> set (drop i ?es)"
      by (rule set_drop_Suc_subset)
    show ?thesis
    proof (cases "needsExpansion (?es ! i)")
      case False
      have "length (edge_label (?es ! i)) = 1"
        using unexpanded_length_1 [OF ok False] .
      with "1.prems"(3) il have a3: "\<forall>e \<in> set (take (i + 1) ?es). length (edge_label e) = 1"
        by (auto simp: take_Suc_conv_app_nth)
      from "1.prems"(4) sub have a4: "\<forall>e \<in> set (drop (i + 1) ?es). nonempty_subs e \<or> single_char e"
        by auto
      from True have a1: "i + 1 \<le> n" by simp
      from "1.IH"(2) [OF True il False a1 "1.prems"(2) a3 a4 "1.prems"(5)]
      show ?thesis by (simp add: preProcess_loop_advance [OF True il False])
    next
      case needs: True
      with ok have ne: "nonempty_subs (?es ! i)"
        using single_char_not_needs by blast
      from expandEdge_edges [OF il, of uuid] obtain new where
        new: "st_edges (expandEdge uuid i st) = take i ?es @ drop (Suc i) ?es @ new"
          "length new = sum_list (map (\<lambda>s. length (trim s)) (split_comma (edge_label (?es ! i))))"
          "list_all single_char new"
        by blast
      let ?es' = "st_edges (expandEdge uuid i st)"
      from new(2) expanded_pushes_one [OF ne] have "1 \<le> length new" by simp
      with new(1) il "1.prems"(2) have b2: "n \<le> length ?es'" by simp
      from new(1) il have tk: "take i ?es' = take i ?es" by simp
      from new(1) il have dr: "drop i ?es' = drop (Suc i) ?es @ new" by simp
      from tk "1.prems"(3) have b3: "\<forall>e \<in> set (take i ?es'). length (edge_label e) = 1"
        by simp
      have snew: "\<forall>e \<in> set new. single_char e"
        using new(3) by (simp add: list_all_iff)
      from dr "1.prems"(4) sub snew
      have b4: "\<forall>e \<in> set (drop i ?es'). nonempty_subs e \<or> single_char e"
        by auto
      have "drop n ?es' = drop (n - i) (drop i ?es')"
        using True by simp
      also have "\<dots> = drop (n - i) (drop (Suc i) ?es) @ drop (n - i - length (drop (Suc i) ?es)) new"
        by (simp add: dr)
      also have "drop (n - i) (drop (Suc i) ?es) = drop (Suc n) ?es"
        using True by simp
      finally have "drop n ?es' =
          drop (Suc n) ?es @ drop (n - i - length (drop (Suc i) ?es)) new" .
      moreover have "set (drop (n - i - length (drop (Suc i) ?es)) new) \<subseteq> set new"
        by (rule set_drop_subset)
      ultimately have "set (drop n ?es') \<subseteq> set (drop (Suc n) ?es) \<union> set new"
        by auto
      moreover have "set (drop (Suc n) ?es) \<subseteq> set (drop n ?es)"
        by (rule set_drop_Suc_subset)
      ultimately have b5: "\<forall>e \<in> set (drop n ?es'). single_char e"
        using "1.prems"(5) snew by blast
      from "1.IH"(1) [OF True il needs "1.prems"(1) b2 b3 b4 b5]
      show ?thesis by (simp add: preProcess_loop_expand [OF True il needs])
    qed
  qed
qed

lemma preProcess_scan:
  assumes "\<forall>e \<in> set es. \<forall>s \<in> set (split_comma (edge_label e)). trim s \<noteq> []"
  shows "snd (preProcess uuid ns es) = None
     \<and> (\<forall>e \<in> set (st_edges (fst (preProcess uuid ns es))). length (edge_label e) = 1)"
proof -
  let ?st = "\<lparr>st_nodes = ns, st_edges = es, st_calls = 0\<rparr>"
  have "\<forall>e \<in> set (drop 0 (st_edges ?st)). nonempty_subs e \<or> single_char e"
    using assms by (simp add: nonempty_subs_def list_all_iff)
  from preProcess_loop_scan [of 0 "length es" ?st, OF _ _ _ this, of uuid]
  show ?thesis by (simp add: preProcess_def)
qed

lemma preProcess_loop_error:
  "snd (preProcess_loop uuid n i st) = None \<or> snd (preProcess_loop uuid n i st) = Some TypeError_Undefined"
proof (induction uuid n i st rule: preProcess_loop.induct)
  case (1 uuid n i st)
  consider "\<not> i < n" | "i < n" "\<not> i < length (st_edges st)"
    | "i < n" "i < length (st_edges st)" "needsExpansion (st_edges st ! i)"
    | "i < n" "i < length (st_edges st)" "\<not> needsExpansion (st_edges st ! i)"
    by blast
  then show ?case
  proof cases
    case 1
    then show ?thesis by (simp add: preProcess_loop_done)
  next
    case 2
    then show ?thesis by (simp add: preProcess_loop_past_end)
  next
    case 3
    with "1.IH"(1) show ?thesis
      by (simp add: preProcess_loop_expand [OF 3])
  next
    case 4
    with "1.IH"(2) show ?thesis
      by (simp add: preProcess_loop_advance [OF 4])
  qed
qed

section \<open>The chains an expansion pushes\<close>
















text \<open>
  C3: when no sub-label of any edge is empty after trimming, \<open>preProcess\<close> returns
  without an exception and every edge of the array it leaves has a label of length 1.
\<close>

theorem preProcess_labels_length_1:
  assumes "\<forall>e \<in> set es. \<forall>s \<in> set (split_comma (edge_label e)). trim s \<noteq> []"
  shows "snd (preProcess uuid ns es) = None
     \<and> (\<forall>e \<in> set (st_edges (fst (preProcess uuid ns es))). length (edge_label e) = 1)"
  using assms by (rule preProcess_scan)

theorem preProcess_labels_witness:
  "list_all (\<lambda>e. length (edge_label e) = 1) (st_edges (fst (preProcess uuid_seq demo_nodes demo_edges)))
   \<and> st_edges (fst (preProcess uuid_seq demo_nodes demo_edges)) = st_edges demo_st"
proof -
  have h: "\<forall>e \<in> set demo_edges. \<forall>s \<in> set (split_comma (edge_label e)). trim s \<noteq> []"
    by (simp add: demo_edges_def trim_def is_ws_def)
  have "st_edges (fst (preProcess uuid_seq demo_nodes demo_edges)) = st_edges demo_st"
    by code_simp
  with preProcess_labels_length_1 [OF h, of uuid_seq demo_nodes] show ?thesis
    by (simp add: list_all_iff)
qed

section \<open>Properties of the traversal\<close>

lemma edgeLoop_Some:
  "edgeLoop es q c = Some t \<Longrightarrow>
     \<exists>e \<in> set es. edge_from e = q \<and> edge_label e = [c] \<and> edge_to e = t"
  by (induction es) (auto split: if_splits)

lemma edgeLoop_None:
  "edgeLoop es q c = None \<longleftrightarrow> \<not> (\<exists>e \<in> set es. edge_from e = q \<and> edge_label e = [c])"
  by (induction es) auto

lemma unique_same_edge:
  assumes "isUniqueEdges es" "e \<in> set es" "e' \<in> set es"
    "edge_from e = edge_from e'" "edge_label e = edge_label e'"
  shows "e = e'"
proof -
  have "inj_on (\<lambda>x. (edge_from x, edge_label x)) (set es)"
    using assms(1) by (simp add: isUniqueEdges_distinct distinct_map)
  with assms(2-5) show ?thesis
    by (auto dest: inj_onD)
qed

lemma inputLoop_path: "inputLoop es q w = Some q' \<Longrightarrow> spec_path es q w q'"
proof (induction w arbitrary: q)
  case Nil
  then show ?case by (simp add: path_done)
next
  case (Cons c w)
  from Cons.prems obtain t where t: "edgeLoop es q c = Some t" "inputLoop es t w = Some q'"
    by (auto split: option.splits)
  from edgeLoop_Some [OF t(1)] obtain e where
    "e \<in> set es" "edge_from e = q" "edge_label e = [c]" "edge_to e = t"
    by blast
  with Cons.IH [OF t(2)] show ?case
    by (auto intro: path_step)
qed

lemma path_inputLoop:
  "spec_path es q w q' \<Longrightarrow> isUniqueEdges es \<Longrightarrow> inputLoop es q w = Some q'"
proof (induction rule: spec_path.induct)
  case (path_done q)
  then show ?case by simp
next
  case (path_step e q c w q')
  have "edgeLoop es q c \<noteq> None"
    using path_step.hyps(1-3) by (auto simp: edgeLoop_None)
  then obtain t where t: "edgeLoop es q c = Some t" by auto
  from edgeLoop_Some [OF t] obtain e' where
    e': "e' \<in> set es" "edge_from e' = q" "edge_label e' = [c]" "edge_to e' = t"
    by blast
  have "e' = e"
    using unique_same_edge [OF path_step.prems e'(1) path_step.hyps(1)] e'(2,3) path_step.hyps(2,3)
    by simp
  with t e'(4) path_step.IH [OF path_step.prems] show ?case by simp
qed

lemma inputLoop_iff_path:
  "isUniqueEdges es \<Longrightarrow> inputLoop es q w = Some q' \<longleftrightarrow> spec_path es q w q'"
  using inputLoop_path path_inputLoop by blast

lemma inputLoop_append:
  "inputLoop es q (w1 @ w2) =
     (case inputLoop es q w1 of None \<Rightarrow> None | Some t \<Rightarrow> inputLoop es t w2)"
  by (induction w1 arbitrary: q) (auto split: option.splits)

lemma nodeLoop_find:
  "nodeLoop ns q = map_option node_label (find (\<lambda>n. node_id n = q \<and> node_final n = Some True) ns)"
  by (induction ns) auto

lemma nodeLoop_Some:
  "nodeLoop ns q = Some l \<Longrightarrow>
     \<exists>k < length ns. node_id (ns ! k) = q \<and> node_final (ns ! k) = Some True
        \<and> (\<forall>j < k. \<not> (node_id (ns ! j) = q \<and> node_final (ns ! j) = Some True))
        \<and> l = node_label (ns ! k)"
  unfolding nodeLoop_find by (auto simp: find_Some_iff)

lemma nodeLoop_None:
  "nodeLoop ns q = None \<longleftrightarrow> (\<forall>n \<in> set ns. node_id n = q \<longrightarrow> node_final n \<noteq> Some True)"
  by (induction ns) auto

lemma computeDFA_valid_unfold:
  assumes "isAutomataData data = Inr True"
    and "preProcess uuid (get (data_nodes data)) (get (data_edges data)) = (st, None)"
    and "isValidDFA (st_nodes st) (st_edges st)"
  shows "computeDFA uuid w data =
     (case inputLoop (st_edges st) ''1'' w of
        None \<Rightarrow> Inr \<lparr>valid = True, accepted = Some False, acceptedNodeLabel = None\<rparr>
      | Some q \<Rightarrow>
         (case nodeLoop (get (data_nodes data)) q of
            Some l \<Rightarrow> Inr \<lparr>valid = True, accepted = Some True, acceptedNodeLabel = Some l\<rparr>
          | None \<Rightarrow> Inr \<lparr>valid = True, accepted = Some False, acceptedNodeLabel = None\<rparr>))"
  using assms preProcess_nodes [OF assms(2)]
  by (simp add: computeDFA_def generateResponse_def split: option.splits)

lemma computeDFA_verdict:
  assumes "isAutomataData data = Inr True" and "snd (preProcess uuid (get (data_nodes data)) (get (data_edges data))) = None"
  shows "\<exists>v. computeDFA uuid w data = Inr v"
proof -
  obtain st where "preProcess uuid (get (data_nodes data)) (get (data_edges data)) = (st, None)"
    using assms(2) by (cases "preProcess uuid (get (data_nodes data)) (get (data_edges data))") auto
  with assms(1) show ?thesis
    by (simp add: computeDFA_def Let_def split: option.splits)
qed

lemma demo_shape: "isAutomataData demo_data = Inr True"
  by code_simp

lemma demo_preProcess:
  "preProcess uuid_seq (get (data_nodes demo_data)) (get (data_edges demo_data)) = (demo_st, None)"
  by code_simp

lemma demo_valid: "isValidDFA (st_nodes demo_st) (st_edges demo_st)"
  by code_simp

text \<open>
  C1: on a graph that passes the shape check and whose normalized edges pass the
  validator, \<open>computeDFA\<close> follows the input from the state \<open>''1''\<close> along matching
  edges. When the whole input is consumed, ending in \<open>q\<close>: if a node of the node
  collection has id \<open>q\<close> and a true \<open>final\<close>, the verdict is valid, accepted, with the
  label of the first such node; if no node has id \<open>q\<close> and a true \<open>final\<close>, the verdict
  is valid and not accepted, without a label. When the input cannot be consumed, the
  verdict is valid and not accepted.
\<close>

theorem computeDFA_simulates:
  assumes "isAutomataData data = Inr True"
    and "preProcess uuid (get (data_nodes data)) (get (data_edges data)) = (st, None)"
    and "isValidDFA (st_nodes st) (st_edges st)"
  shows "(\<exists>q. spec_path (st_edges st) ''1'' w q \<and>
            ((\<exists>k < length (get (data_nodes data)).
                 node_id (get (data_nodes data) ! k) = q \<and> node_final (get (data_nodes data) ! k) = Some True
               \<and> (\<forall>j < k. \<not> (node_id (get (data_nodes data) ! j) = q
                             \<and> node_final (get (data_nodes data) ! j) = Some True))
               \<and> computeDFA uuid w data =
                   Inr \<lparr>valid = True, accepted = Some True,
                        acceptedNodeLabel = Some (node_label (get (data_nodes data) ! k))\<rparr>)
           \<or> ((\<forall>n \<in> set (get (data_nodes data)). node_id n = q \<longrightarrow> node_final n \<noteq> Some True)
               \<and> computeDFA uuid w data =
                   Inr \<lparr>valid = True, accepted = Some False, acceptedNodeLabel = None\<rparr>)))
       \<or> ((\<forall>q. \<not> spec_path (st_edges st) ''1'' w q)
           \<and> computeDFA uuid w data =
               Inr \<lparr>valid = True, accepted = Some False, acceptedNodeLabel = None\<rparr>)"
proof -
  note unf = computeDFA_valid_unfold [OF assms, of w]
  have uniq: "isUniqueEdges (st_edges st)"
    using assms(3) by (simp add: isValidDFA_def)
  show ?thesis
  proof (cases "inputLoop (st_edges st) ''1'' w")
    case None
    then have "\<forall>q. \<not> spec_path (st_edges st) ''1'' w q"
      using path_inputLoop [OF _ uniq] by fastforce
    with None unf show ?thesis by simp
  next
    case (Some q)
    then have path: "spec_path (st_edges st) ''1'' w q"
      by (rule inputLoop_path)
    show ?thesis
    proof (cases "nodeLoop (get (data_nodes data)) q")
      case None
      with Some unf have "computeDFA uuid w data =
          Inr \<lparr>valid = True, accepted = Some False, acceptedNodeLabel = None\<rparr>"
        by simp
      moreover from None have
        "\<forall>n \<in> set (get (data_nodes data)). node_id n = q \<longrightarrow> node_final n \<noteq> Some True"
        by (simp add: nodeLoop_None)
      ultimately show ?thesis using path by blast
    next
      case (Some l)
      from nodeLoop_Some [OF Some] obtain k where k:
        "k < length (get (data_nodes data))"
        "node_id (get (data_nodes data) ! k) = q" "node_final (get (data_nodes data) ! k) = Some True"
        "\<forall>j < k. \<not> (node_id (get (data_nodes data) ! j) = q
                             \<and> node_final (get (data_nodes data) ! j) = Some True)"
        "l = node_label (get (data_nodes data) ! k)"
        by blast
      from Some \<open>inputLoop (st_edges st) ''1'' w = Some q\<close> unf have
        "computeDFA uuid w data =
           Inr \<lparr>valid = True, accepted = Some True, acceptedNodeLabel = Some l\<rparr>"
        by simp
      with k path show ?thesis by blast
    qed
  qed
qed

theorem computeDFA_simulates_witness:
  "spec_path (st_edges demo_st) ''1'' ''ab'' ''2''
   \<and> computeDFA uuid_seq ''ab'' demo_data =
       Inr \<lparr>valid = True, accepted = Some True, acceptedNodeLabel = Some ''end''\<rparr>"
proof -
  have v: "computeDFA uuid_seq ''ab'' demo_data =
       Inr \<lparr>valid = True, accepted = Some True, acceptedNodeLabel = Some ''end''\<rparr>"
    by code_simp
  from computeDFA_simulates [OF demo_shape demo_preProcess demo_valid, of "''ab''"] v
  obtain q k where q: "spec_path (st_edges demo_st) ''1'' ''ab'' q"
    and k: "k < length (get (data_nodes demo_data))" "node_id (get (data_nodes demo_data) ! k) = q"
      "node_final (get (data_nodes demo_data) ! k) = Some True"
    by auto
  from k(1) have "k = 0 \<or> k = 1"
    by (auto simp: demo_data_def demo_nodes_def)
  with k(2,3) have "q = ''2''"
    by (auto simp: demo_data_def demo_nodes_def)
  with q v show ?thesis by simp
qed

text \<open>
  C5: when two positions of the normalized edge array hold edges with the same
  \<open>from\<close> and the same \<open>label\<close>, the verdict has \<open>valid = false\<close> and neither of the
  other two fields, whatever the input string is.
\<close>

theorem computeDFA_invalid_only_valid_field:
  assumes "isAutomataData data = Inr True"
    and "preProcess uuid (get (data_nodes data)) (get (data_edges data)) = (st, None)"
    and "i < j" and "j < length (st_edges st)"
    and "edge_from (st_edges st ! i) = edge_from (st_edges st ! j)"
    and "edge_label (st_edges st ! i) = edge_label (st_edges st ! j)"
  shows "computeDFA uuid w data = Inr \<lparr>valid = False, accepted = None, acceptedNodeLabel = None\<rparr>"
proof -
  have "\<not> isUniqueEdges (st_edges st)"
    unfolding isUniqueEdges_pairs using assms(3-6) by blast
  with assms(1,2) show ?thesis
    by (simp add: computeDFA_def isValidDFA_def generateResponse_def)
qed

theorem computeDFA_invalid_witness:
  "edge_from (st_edges dup_st ! 0) = edge_from (st_edges dup_st ! 1)
   \<and> edge_label (st_edges dup_st ! 0) = edge_label (st_edges dup_st ! 1)
   \<and> computeDFA uuid_seq ''a'' dup_data =
       Inr \<lparr>valid = False, accepted = None, acceptedNodeLabel = None\<rparr>"
proof -
  have h1: "isAutomataData dup_data = Inr True" by code_simp
  have h2: "preProcess uuid_seq (get (data_nodes dup_data)) (get (data_edges dup_data)) = (dup_st, None)"
    by code_simp
  have h3: "(0::nat) < 1" by simp
  have h4: "1 < length (st_edges dup_st)" by (simp add: dup_st_def dup_edges_def)
  have h5: "edge_from (st_edges dup_st ! 0) = edge_from (st_edges dup_st ! 1)"
    by (simp add: dup_st_def dup_edges_def)
  have h6: "edge_label (st_edges dup_st ! 0) = edge_label (st_edges dup_st ! 1)"
    by (simp add: dup_st_def dup_edges_def)
  from computeDFA_invalid_only_valid_field [OF h1 h2 h3 h4 h5 h6, of "''a''"] h5 h6
  show ?thesis by simp
qed

text \<open>
  C6: on a valid graph, when the input read so far leads from \<open>''1''\<close> to \<open>q\<close> and no
  edge leaves \<open>q\<close> under the next character \<open>c\<close>, the verdict is valid and not accepted,
  without a label, whatever characters \<open>w2\<close> follow.
\<close>

theorem computeDFA_dead_end:
  assumes "isAutomataData data = Inr True"
    and "preProcess uuid (get (data_nodes data)) (get (data_edges data)) = (st, None)"
    and "isValidDFA (st_nodes st) (st_edges st)"
    and "spec_path (st_edges st) ''1'' w1 q"
    and "\<not> (\<exists>e \<in> set (st_edges st). edge_from e = q \<and> edge_label e = [c])"
  shows "computeDFA uuid (w1 @ c # w2) data =
           Inr \<lparr>valid = True, accepted = Some False, acceptedNodeLabel = None\<rparr>"
proof -
  have uniq: "isUniqueEdges (st_edges st)"
    using assms(3) by (simp add: isValidDFA_def)
  have "inputLoop (st_edges st) ''1'' w1 = Some q"
    using path_inputLoop [OF assms(4) uniq] .
  moreover have "edgeLoop (st_edges st) q c = None"
    using assms(5) by (simp add: edgeLoop_None)
  ultimately have "inputLoop (st_edges st) ''1'' (w1 @ c # w2) = None"
    by (simp add: inputLoop_append)
  with computeDFA_valid_unfold [OF assms(1-3), of "w1 @ c # w2"] show ?thesis
    by simp
qed

theorem computeDFA_dead_end_witness:
  "spec_path (st_edges demo_st) ''1'' ''a'' ''uu''
   \<and> computeDFA uuid_seq ''acb'' demo_data =
       Inr \<lparr>valid = True, accepted = Some False, acceptedNodeLabel = None\<rparr>"
proof -
  have p: "spec_path (st_edges demo_st) ''1'' ''a'' ''uu''"
    by (rule path_step [where e = "\<lparr>edge_id = ''u'', edge_from = ''1'', edge_to = ''uu'',
          edge_label = ''a''\<rparr>"])
       (simp_all add: demo_st_def path_done)
  have n: "\<not> (\<exists>e \<in> set (st_edges demo_st). edge_from e = ''uu'' \<and> edge_label e = [CHR ''c''])"
    by (simp add: demo_st_def)
  from computeDFA_dead_end [OF demo_shape demo_preProcess demo_valid p n, of "''b''"] p
  show ?thesis by simp
qed

text \<open>
  C10: on a valid graph and the empty input, the verdict is accepted, with the label of
  the first node whose id is \<open>''1''\<close> and whose \<open>final\<close> is true, when there is such a
  node, and valid but not accepted otherwise.
\<close>

theorem computeDFA_empty_input:
  assumes "isAutomataData data = Inr True"
    and "preProcess uuid (get (data_nodes data)) (get (data_edges data)) = (st, None)"
    and "isValidDFA (st_nodes st) (st_edges st)"
  shows "computeDFA uuid [] data =
     (case find (\<lambda>n. node_id n = ''1'' \<and> node_final n = Some True) (get (data_nodes data)) of
        Some n \<Rightarrow> Inr \<lparr>valid = True, accepted = Some True, acceptedNodeLabel = Some (node_label n)\<rparr>
      | None \<Rightarrow> Inr \<lparr>valid = True, accepted = Some False, acceptedNodeLabel = None\<rparr>)"
  using computeDFA_valid_unfold [OF assms, of "[]"]
  by (simp add: nodeLoop_find split: option.splits)

theorem computeDFA_empty_input_witness:
  "computeDFA uuid_seq [] demo_data =
     Inr \<lparr>valid = True, accepted = Some False, acceptedNodeLabel = None\<rparr>
   \<and> computeDFA uuid_seq []
        (Object \<lparr>nodes = DataSet [\<lparr>node_id = ''1'', node_label = ''start'', node_final = Some True\<rparr>],
                 edges = DataSet demo_edges\<rparr>) =
     Inr \<lparr>valid = True, accepted = Some True, acceptedNodeLabel = Some ''start''\<rparr>"
proof -
  let ?d = "Object \<lparr>nodes = DataSet [\<lparr>node_id = ''1'', node_label = ''start'', node_final = Some True\<rparr>],
                 edges = DataSet demo_edges\<rparr>"
  let ?st = "demo_st\<lparr>st_nodes := [\<lparr>node_id = ''1'', node_label = ''start'', node_final = Some True\<rparr>]\<rparr>"
  have h1: "isAutomataData ?d = Inr True" by code_simp
  have h2: "preProcess uuid_seq (get (data_nodes ?d)) (get (data_edges ?d)) = (?st, None)" by code_simp
  have h3: "isValidDFA (st_nodes ?st) (st_edges ?st)" by code_simp
  from computeDFA_empty_input [OF demo_shape demo_preProcess demo_valid]
    computeDFA_empty_input [OF h1 h2 h3]
  show ?thesis
    by (simp add: demo_data_def demo_nodes_def)
qed

text \<open>
  C9: on a graph that passes the shape check and has no sub-label that is empty after
  trimming, the scan of \<open>preProcess\<close> ends without reading past the end of the edge
  array, and \<open>computeDFA\<close> returns a verdict. Every loop of the model is a total
  function: the scan by its termination proof, the others by structural recursion.
\<close>

theorem computeDFA_returns_verdict:
  assumes "isAutomataData data = Inr True"
    and "\<forall>e \<in> set (get (data_edges data)). \<forall>s \<in> set (split_comma (edge_label e)). trim s \<noteq> []"
  shows "snd (preProcess uuid (get (data_nodes data)) (get (data_edges data))) = None
     \<and> (\<exists>v. computeDFA uuid w data = Inr v)"
proof -
  have "snd (preProcess uuid (get (data_nodes data)) (get (data_edges data))) = None"
    using preProcess_scan [OF assms(2)] by simp
  with computeDFA_verdict [OF assms(1)] show ?thesis by simp
qed

theorem computeDFA_returns_verdict_witness:
  "isAutomataData demo_data = Inr True
   \<and> snd (preProcess uuid_seq (get (data_nodes demo_data)) (get (data_edges demo_data))) = None
   \<and> (\<exists>v. computeDFA uuid_seq ''ba'' demo_data = Inr v)"
proof -
  have h: "\<forall>e \<in> set (get (data_edges demo_data)). \<forall>s \<in> set (split_comma (edge_label e)). trim s \<noteq> []"
    by (simp add: demo_data_def demo_edges_def trim_def is_ws_def)
  from computeDFA_returns_verdict [OF demo_shape h, of uuid_seq "''ba''"] demo_shape
  show ?thesis by simp
qed

text \<open>
  C7, as amended: \<open>computeDFA\<close> fails at the shape check, with a \<open>TypeError\<close>, exactly
  when the value is not an object whose two members are both instances of \<open>DataSet\<close>.
  On an object with a member that is absent, or present but of another kind, it throws
  its own \<open>TypeError\<close>; on a value that is not an object the \<open>in\<close> operator throws the
  runtime's. The items are not inspected. An object whose two members are \<open>DataSet\<close>
  instances, with no sub-label that is empty after trimming, gets a verdict.
\<close>

theorem computeDFA_TypeError_iff:
  "((computeDFA uuid w data = Inl TypeError_OnlyDataset \<or> computeDFA uuid w data = Inl TypeError_In)
      \<longleftrightarrow> \<not> (\<exists>ns es. data = Object \<lparr>nodes = DataSet ns, edges = DataSet es\<rparr>))
   \<and> (computeDFA uuid w data = Inl TypeError_OnlyDataset
      \<longleftrightarrow> (\<exists>d. data = Object d \<and> \<not> (\<exists>ns es. nodes d = DataSet ns \<and> edges d = DataSet es)))
   \<and> (computeDFA uuid w data = Inl TypeError_In \<longleftrightarrow> data = NonObject)
   \<and> ((\<exists>ns es. data = Object \<lparr>nodes = DataSet ns, edges = DataSet es\<rparr>
          \<and> (\<forall>e \<in> set es. \<forall>s \<in> set (split_comma (edge_label e)). trim s \<noteq> []))
        \<longrightarrow> (\<exists>v. computeDFA uuid w data = Inr v))"
proof (cases data)
  case NonObject
  then have "computeDFA uuid w data = Inl TypeError_In"
    by (simp add: computeDFA_def)
  with NonObject show ?thesis by simp
next
  case (Object d)
  show ?thesis
  proof (cases "\<exists>ns es. nodes d = DataSet ns \<and> edges d = DataSet es")
    case False
    then have "isAutomataData (Object d) = Inr False"
      by (cases "nodes d"; cases "edges d") simp_all
    with Object have r: "computeDFA uuid w data = Inl TypeError_OnlyDataset"
      by (simp add: computeDFA_def)
    from False have "\<not> (\<exists>ns es. d = \<lparr>nodes = DataSet ns, edges = DataSet es\<rparr>)"
      by auto
    with r Object False show ?thesis by simp
  next
    case True
    then obtain ns es where d: "nodes d = DataSet ns" "edges d = DataSet es" by blast
    then have dd: "d = \<lparr>nodes = DataSet ns, edges = DataSet es\<rparr>" by simp
    from d have ok: "isAutomataData data = Inr True"
      using Object by simp
    obtain st r where pr: "preProcess uuid (get (data_nodes data)) (get (data_edges data)) = (st, r)"
      by (cases "preProcess uuid (get (data_nodes data)) (get (data_edges data))") auto
    have "r = None \<or> r = Some TypeError_Undefined"
      using preProcess_loop_error [of uuid "length (get (data_edges data))" 0
          "\<lparr>st_nodes = get (data_nodes data), st_edges = get (data_edges data), st_calls = 0\<rparr>"] pr
      by (simp add: preProcess_def)
    with ok pr have n1: "computeDFA uuid w data \<noteq> Inl TypeError_OnlyDataset"
      and n2: "computeDFA uuid w data \<noteq> Inl TypeError_In"
      by (auto simp: computeDFA_def Let_def split: option.splits)
    have v: "\<exists>v. computeDFA uuid w data = Inr v"
      if l: "\<forall>e \<in> set es. \<forall>s \<in> set (split_comma (edge_label e)). trim s \<noteq> []"
    proof -
      have "snd (preProcess uuid (get (data_nodes data)) (get (data_edges data))) = None"
        using preProcess_scan [OF l, of uuid ns] d Object by simp
      with ok show ?thesis by (rule computeDFA_verdict)
    qed
    from n1 n2 v Object dd True show ?thesis by auto
  qed
qed

theorem computeDFA_TypeError_witness:
  "computeDFA uuid_seq ''ab'' (Object \<lparr>nodes = DataSet demo_nodes, edges = NoMember\<rparr>)
      = Inl TypeError_OnlyDataset
   \<and> computeDFA uuid_seq ''ab'' NonObject = Inl TypeError_In
   \<and> computeDFA uuid_seq ''ab'' demo_data \<noteq> Inl TypeError_OnlyDataset
   \<and> computeDFA uuid_seq ''ab'' demo_data \<noteq> Inl TypeError_In
   \<and> (\<exists>v. computeDFA uuid_seq ''ab'' demo_data = Inr v)"
proof -
  have h: "\<exists>ns es. demo_data = Object \<lparr>nodes = DataSet ns, edges = DataSet es\<rparr>
          \<and> (\<forall>e \<in> set es. \<forall>s \<in> set (split_comma (edge_label e)). trim s \<noteq> [])"
    by (simp add: demo_data_def demo_edges_def trim_def is_ws_def)
  have g: "\<exists>d. Object \<lparr>nodes = DataSet demo_nodes, edges = NoMember\<rparr> = Object d
          \<and> \<not> (\<exists>ns es. nodes d = DataSet ns \<and> edges d = DataSet es)"
    by simp
  from computeDFA_TypeError_iff
      [of uuid_seq "''ab''" "Object \<lparr>nodes = DataSet demo_nodes, edges = NoMember\<rparr>"]
    computeDFA_TypeError_iff [of uuid_seq "''ab''" NonObject]
    computeDFA_TypeError_iff [of uuid_seq "''ab''" demo_data] h g
  show ?thesis by blast
qed

text \<open>
  C7 as stated fails twice. An object whose two members are present but are not
  \<open>DataSet\<close> instances is refused with the \<open>TypeError\<close> of \<open>computeDFA\<close>; and an object
  whose members are \<open>DataSet\<close> instances, with the single edge label \<open>'',''\<close>, gets no
  verdict: \<open>preProcess\<close> reads past the end of the edge array.
\<close>

theorem computeDFA_TypeError_counterexample:
  "has_member (nodes \<lparr>nodes = NotDataSet, edges = NotDataSet\<rparr>)
   \<and> has_member (edges \<lparr>nodes = NotDataSet, edges = NotDataSet\<rparr>)
   \<and> computeDFA uuid_seq ''a'' (Object \<lparr>nodes = NotDataSet, edges = NotDataSet\<rparr>)
       = Inl TypeError_OnlyDataset
   \<and> computeDFA uuid_seq ''a''
        (Object \<lparr>nodes = DataSet demo_nodes,
           edges = DataSet [\<lparr>edge_id = ''e1'', edge_from = ''1'', edge_to = ''2'', edge_label = '',''\<rparr>]\<rparr>)
       = Inl TypeError_Undefined"
  by code_simp

section \<open>The caller's graph is left as it was\<close>

lemma at_append_old: "a < length h \<Longrightarrow> at (h @ xs) a = at h a"
  by (simp add: at_def nth_append)

lemma view_old:
  assumes "\<forall>a < length h. at h' a = at h a" and "isAutomataData (view h data) = Inr True"
  shows "view h' data = view h data"
proof -
  from assms(2) obtain nr er ns es where r: "nodes_ref data = Some nr" "edges_ref data = Some er"
    and o: "at h nr = NodeSet ns" "at h er = EdgeSet es"
    by (auto simp: view_def nodes_member_def edges_member_def
        split: option.splits obj.splits if_splits)
  from o have "nr < length h" "er < length h"
    by (auto simp: at_def split: if_splits)
  with assms(1) have "at h' nr = at h nr" "at h' er = at h er" by simp_all
  with r show ?thesis
    by (simp add: view_def nodes_member_def edges_member_def)
qed

lemma computeDFA_store_refused:
  "isAutomataData (view h data) \<noteq> Inr True \<Longrightarrow>
   computeDFA_store uuid w data h = (Inl TypeError_OnlyDataset, h)"
  by (simp add: computeDFA_store_def split: option.splits)

lemma computeDFA_store_run:
  assumes "isAutomataData (view h data) = Inr True"
  shows "fst (computeDFA_store uuid w data h) = computeDFA uuid w (view h data)
     \<and> (\<forall>a < length h. at (snd (computeDFA_store uuid w data h)) a = at h a)"
proof -
  from assms obtain nr er ns es where r: "nodes_ref data = Some nr" "edges_ref data = Some er"
    and o: "at h nr = NodeSet ns" "at h er = EdgeSet es"
    by (auto simp: view_def nodes_member_def edges_member_def
        split: option.splits obj.splits if_splits)
  from o have lt: "nr < length h" "er < length h"
    by (auto simp: at_def split: if_splits)
  have v: "get (data_nodes (view h data)) = ns" "get (data_edges (view h data)) = es"
    using r o by (simp_all add: view_def nodes_member_def edges_member_def)
  obtain st err where p: "preProcess uuid ns es = (st, err)"
    by (cases "preProcess uuid ns es") auto
  define h1 where "h1 = h @ [NodeArray ns]"
  define h2 where "h2 = h1 @ [EdgeArray es]"
  define h3 where
    "h3 = h2[length h := NodeArray (st_nodes st), Suc (length h) := EdgeArray (st_edges st)]"
  have g1: "get_nodes h nr = (length h, h1)"
    using o(1) by (simp add: get_nodes_def nodes_member_def h1_def)
  have "at h1 er = EdgeSet es"
    using o(2) lt(2) by (simp add: h1_def at_append_old)
  then have g2: "get_edges h1 er = (Suc (length h), h2)"
    by (simp add: get_edges_def edges_member_def h2_def h1_def)
  have a2: "node_array h2 (length h) = ns" "edge_array h2 (Suc (length h)) = es"
    by (simp_all add: h2_def h1_def node_array_def edge_array_def at_def nth_append)
  have a3: "node_array h3 (length h) = st_nodes st" "edge_array h3 (Suc (length h)) = st_edges st"
    by (simp_all add: h3_def h2_def h1_def node_array_def edge_array_def at_def nth_append
        nth_list_update)
  have old: "\<forall>a < length h. at h3 a = at h a"
    by (simp add: h3_def h2_def h1_def at_def nth_append nth_list_update)
  have pp: "preProcess_store uuid (length h) (Suc (length h)) h2 = (h3, err)"
    using p by (simp add: preProcess_store_def a2 h3_def)
  have res: "computeDFA_store uuid w data h =
      (case err of
         Some e \<Rightarrow> (Inl e, h3)
       | None \<Rightarrow>
           (let isValid = isValidDFA (st_nodes st) (st_edges st) in
            if \<not> isValid then (Inr (generateResponse isValid None None), h3)
            else
              (case inputLoop (st_edges st) ''1'' w of
                 None \<Rightarrow> (Inr (generateResponse isValid (Some False) None), h3)
               | Some currentNode \<Rightarrow>
                   (case nodeLoop (st_nodes st) currentNode of
                      Some l \<Rightarrow> (Inr (generateResponse isValid (Some True) (Some l)), h3)
                    | None \<Rightarrow> (Inr (generateResponse isValid (Some False) None), h3)))))"
    using assms r
    by (simp add: computeDFA_store_def g1 g2 pp a3 Let_def split: option.splits)
  have "snd (computeDFA_store uuid w data h) = h3"
    unfolding res by (simp add: Let_def split: option.splits)
  moreover have "fst (computeDFA_store uuid w data h) = computeDFA uuid w (view h data)"
    unfolding res using assms v p
    by (simp add: computeDFA_def Let_def split: option.splits)
  ultimately show ?thesis using old by simp
qed

text \<open>
  C8: whatever the call does, every object that was in the store before it, the
  caller's two \<open>DataSet\<close> objects among them, is the same after it, and the caller sees
  the same graph; the insertions and removals of \<open>preProcess\<close> land in the two arrays
  that \<open>get()\<close> created during the call. The verdict is the one of \<open>computeDFA\<close> on the
  graph as it was.
\<close>

theorem computeDFA_leaves_graph:
  "(\<forall>a < length h. at (snd (computeDFA_store uuid w data h)) a = at h a)
   \<and> view (snd (computeDFA_store uuid w data h)) data = view h data
   \<and> fst (computeDFA_store uuid w data h) = computeDFA uuid w (view h data)"
proof (cases "isAutomataData (view h data) = Inr True")
  case True
  from computeDFA_store_run [OF True, of uuid w] view_old [OF _ True]
  show ?thesis by blast
next
  case False
  then have "isAutomataData (view h data) = Inr False"
    by (simp add: view_def)
  with False show ?thesis
    by (simp add: computeDFA_store_refused computeDFA_def)
qed

theorem computeDFA_leaves_graph_witness:
  "view demo_store demo_ref = demo_data
   \<and> view (snd (computeDFA_store uuid_seq ''ab'' demo_ref demo_store)) demo_ref = demo_data
   \<and> at (snd (computeDFA_store uuid_seq ''ab'' demo_ref demo_store)) 1 = EdgeSet demo_edges
   \<and> at (snd (computeDFA_store uuid_seq ''ab'' demo_ref demo_store)) 3 = EdgeArray (st_edges demo_st)
   \<and> fst (computeDFA_store uuid_seq ''ab'' demo_ref demo_store) =
       Inr \<lparr>valid = True, accepted = Some True, acceptedNodeLabel = Some ''end''\<rparr>"
proof -
  have v: "view demo_store demo_ref = demo_data" by code_simp
  have r: "computeDFA uuid_seq ''ab'' demo_data =
       Inr \<lparr>valid = True, accepted = Some True, acceptedNodeLabel = Some ''end''\<rparr>"
    by code_simp
  have a: "at (snd (computeDFA_store uuid_seq ''ab'' demo_ref demo_store)) 3
      = EdgeArray (st_edges demo_st)"
    by code_simp
  have l: "(1::nat) < length demo_store" by (simp add: demo_store_def)
  have o: "at demo_store 1 = EdgeSet demo_edges" by (simp add: demo_store_def at_def)
  from computeDFA_leaves_graph [of demo_store uuid_seq "''ab''" demo_ref] v r a l o
  show ?thesis by simp
qed

end
